theory Spec2Isabelle
  imports Complex_Main "HOL-Library.Sublist"
begin

section \<open>Strings and paths\<close>

text \<open>
  A Python \<open>str\<close> is modelled as a \<open>string\<close> whose characters are the code points below
  256. On that range \<open>str.lower()\<close> maps \<open>A..Z\<close> and the Latin-1 capitals
  (U+00C0 to U+00DE, without the multiplication sign U+00D7) to the letter 32 places
  further on, and leaves every other character alone.
\<close>

definition lower_char :: "char \<Rightarrow> char" where
  "lower_char c =
     (let n = (of_char c :: nat)
      in if (65 \<le> n \<and> n \<le> 90) \<or> (192 \<le> n \<and> n \<le> 222 \<and> n \<noteq> 215)
         then char_of (n + 32) else c)"

definition lower :: "string \<Rightarrow> string" where
  "lower s = map lower_char s"

text \<open>The path separator of the platform (the backslash), and the other characters
  after which \<open>os.scandir\<close> joins a name to its directory without adding a separator.\<close>

definition sep :: char where
  "sep = CHR 0x5C"

definition join_path :: "string \<Rightarrow> string \<Rightarrow> string" where
  "join_path directory name =
     (if directory \<noteq> [] \<and> last directory \<notin> {sep, CHR ''/'', CHR '':''}
      then directory @ [sep] @ name
      else directory @ name)"

text \<open>\<open>p in s\<close> on strings: \<open>p\<close> occurs in \<open>s\<close> as a contiguous run.\<close>

fun str_contains :: "string \<Rightarrow> string \<Rightarrow> bool" where
  "str_contains p [] = (p = [])"
| "str_contains p (c # cs) = (prefix p (c # cs) \<or> str_contains p cs)"

text \<open>\<open>s.startswith(p)\<close>.\<close>

definition startswith :: "string \<Rightarrow> string \<Rightarrow> bool" where
  "startswith s p = prefix p s"

text \<open>
  \<open>Path(p).suffix\<close>: the final component of the path is what follows the last
  separator (or the drive colon); its suffix starts at the last dot, provided that dot
  is neither the first nor the last character of the component (\<open>name.rfind('.')\<close>
  strictly between 0 and \<open>len(name) - 1\<close>), and is empty otherwise.
\<close>

definition path_name :: "string \<Rightarrow> string" where
  "path_name p = rev (takeWhile (\<lambda>c. c \<notin> {sep, CHR ''/'', CHR '':''}) (rev p))"

definition path_suffix :: "string \<Rightarrow> string" where
  "path_suffix p =
     (let name = path_name p;
          tl_part = rev (takeWhile (\<lambda>c. c \<noteq> CHR ''.'') (rev name))
      in if CHR ''.'' \<in> set name \<and> tl_part \<noteq> [] \<and> length tl_part + 1 < length name
         then CHR ''.'' # tl_part else [])"

section \<open>Scan results\<close>

record ScanResult =
  item_id :: string
  item_name :: string
  total_size :: nat
  file_count :: nat
  files :: "string list"
  error :: "string option"

text \<open>\<open>ScanResult(item_id=..., item_name=...)\<close> with the dataclass defaults.\<close>

definition new_result :: "string \<Rightarrow> string \<Rightarrow> ScanResult" where
  "new_result i n =
     \<lparr>item_id = i, item_name = n, total_size = 0, file_count = 0, files = [], error = None\<rparr>"

section \<open>The file system seen by the scanner\<close>

text \<open>
  A directory entry as \<open>os.scandir\<close> yields it. Sizes are byte counts. Where the
  platform call behind a field can raise \<open>OSError\<close> (or \<open>PermissionError\<close>), the
  field is \<open>None\<close>:
  \<^item> \<open>File name size\<close>: \<open>is_file(follow_symlinks=False)\<close> holds; \<open>size\<close> is
    \<open>stat().st_size\<close>;
  \<^item> \<open>Dir name mtime listing\<close>: \<open>is_dir(follow_symlinks=False)\<close> holds; \<open>mtime\<close> is
    \<open>stat().st_mtime\<close>, \<open>listing\<close> what \<open>os.scandir\<close> of the directory yields;
  \<^item> \<open>Other name\<close>: a symbolic link or special file, neither file nor directory when
    links are not followed;
  \<^item> \<open>Faulty name\<close>: an entry whose type query raises.
  A listing is either read whole or raises when it is opened.
\<close>

datatype entry =
    File string "nat option"
  | Dir string "real option" "entry list option"
  | Other string
  | Faulty string

text \<open>What the scanner reads from outside itself.\<close>

text \<open>
  The outcome of the call \<open>shell32.SHQueryRecycleBinW(drive_path, byref(info))\<close>:
  the status it returns with the fields \<open>i64Size\<close> and \<open>i64NumItems\<close> it has filled
  in, or the text of an exception raised on the way. The two fields are the number of
  bytes and the number of items in the bin, which the shell never reports as negative;
  they are naturals here.
\<close>

datatype shell_reply = Returned int nat nat | Raised string

text \<open>What the scanner reads from outside itself; \<open>get_available_drives\<close> is the list
  that the static method of that name returns.\<close>

record Platform =
  get_available_drives :: "string list"
  path_exists :: "string \<Rightarrow> bool"
  scandir :: "string \<Rightarrow> entry list option"
  time_now :: real
  SHQueryRecycleBinW :: "string option \<Rightarrow> shell_reply"

text \<open>The configuration module: one cleanup item is a dictionary with the keys
  \<open>id\<close>, \<open>name\<close> and, optionally, \<open>paths\<close>, \<open>extensions\<close>, \<open>pattern\<close>,
  \<open>special\<close>.\<close>

record CleanupItem =
  ci_id :: string
  ci_name :: string
  ci_paths :: "string list"
  ci_extensions :: "string list option"
  ci_pattern :: "string option"
  ci_special :: "string option"

record Config =
  CLEANUP_ITEMS :: "CleanupItem list"
  DEVELOPER_CLEAN_RULES :: "string list"
  AGE_THRESHOLD_DAYS :: real

section \<open>The scanner and its cancellation flag\<close>

text \<open>
  \<open>cancelled\<close> is the attribute \<open>_cancelled\<close>. The flag is written by \<open>cancel()\<close> from
  another thread while a scan runs; the scan only ever reads it. The interleaving is
  modelled by \<open>pending_cancel\<close>: \<open>Some k\<close> says that the concurrent \<open>cancel()\<close> lands
  after \<open>k\<close> more reads of the flag by the scan, \<open>None\<close> that none is under way.
  \<open>progress_callback\<close> tells whether a callback is installed, and \<open>emitted\<close> collects
  the calls made to it, oldest first.
\<close>

record Scanner =
  progress_callback :: bool
  drive :: string
  results :: "string \<rightharpoonup> ScanResult"
  cancelled :: bool
  pending_cancel :: "nat option"
  emitted :: "(string \<times> nat) list"

definition cancel :: "Scanner \<Rightarrow> Scanner" where
  "cancel s = s\<lparr>cancelled := True\<rparr>"

text \<open>One read of \<open>self._cancelled\<close> by the scanning thread.\<close>

definition read_cancelled :: "Scanner \<Rightarrow> bool \<times> Scanner" where
  "read_cancelled s =
     (if cancelled s then (True, s)
      else (case pending_cancel s of
              None \<Rightarrow> (False, s)
            | Some k \<Rightarrow>
                if k = 0 then (True, s\<lparr>cancelled := True, pending_cancel := None\<rparr>)
                else (False, s\<lparr>pending_cancel := Some (k - 1)\<rparr>)))"

section \<open>Developer-junk scanner\<close>

text \<open>\<open>_get_dir_size_for_scan\<close>: the sum of the sizes of the files below a directory;
  an entry that raises is skipped, a listing that raises counts as empty.\<close>

fun get_dir_size_for_scan :: "entry list option \<Rightarrow> nat"
  and dir_size_entries :: "entry list \<Rightarrow> nat"
  and dir_size_entry :: "entry \<Rightarrow> nat"
where
  "get_dir_size_for_scan None = 0"
| "get_dir_size_for_scan (Some es) = dir_size_entries es"
| "dir_size_entries [] = 0"
| "dir_size_entries (e # es) = dir_size_entry e + dir_size_entries es"
| "dir_size_entry (File name size_opt) = (case size_opt of None \<Rightarrow> 0 | Some n \<Rightarrow> n)"
| "dir_size_entry (Dir name mtime listing) = get_dir_size_for_scan listing"
| "dir_size_entry (Other name) = 0"
| "dir_size_entry (Faulty name) = 0"

definition skip_dirs :: "string list" where
  "skip_dirs =
     [''windows'', ''program files'', ''program files (x86)'',
      ''programdata'', ''appdata'', ''.git'', ''.svn'', ''system volume information'',
      ''$recycle.bin'', ''recovery'', ''msocache'']"

text \<open>The update made for a matched directory (lines 310 to 312 of the source).\<close>

definition add_match :: "nat \<Rightarrow> string \<Rightarrow> ScanResult \<Rightarrow> ScanResult" where
  "add_match n path r =
     r\<lparr>total_size := total_size r + n, file_count := file_count r + 1,
       files := files r @ [path]\<rparr>"

text \<open>
  The arguments of \<open>_depth_search\<close> that stay the same through the recursion:
  \<open>rules\<close> is \<open>DEVELOPER_CLEAN_RULES\<close> of the configuration module, \<open>skip\<close> the
  argument \<open>skip_dirs\<close>.
\<close>

record junk_search =
  rules :: "string list"
  now :: real
  threshold :: real
  skip :: "string list"
  max_depth :: nat

text \<open>
  \<open>_depth_search\<close>; \<open>listing\<close> is what \<open>os.scandir(path)\<close> yields. The loop over the
  entries is \<open>depth_entries\<close>, its body \<open>depth_entry\<close>. In the body the first \<open>case\<close>
  is the branch for a name in \<open>rules\<close>: it yields \<open>Some\<close> where the source reaches a
  \<open>continue\<close> (or \<open>stat()\<close> raises), and \<open>None\<close> where control falls through to the
  skip test.
\<close>

fun depth_search ::
    "junk_search \<Rightarrow> string \<Rightarrow> entry list option \<Rightarrow> nat \<Rightarrow> Scanner \<times> ScanResult \<Rightarrow> Scanner \<times> ScanResult"
  and depth_entries ::
    "junk_search \<Rightarrow> string \<Rightarrow> entry list \<Rightarrow> nat \<Rightarrow> Scanner \<times> ScanResult \<Rightarrow> Scanner \<times> ScanResult"
  and depth_entry ::
    "junk_search \<Rightarrow> string \<Rightarrow> entry \<Rightarrow> nat \<Rightarrow> Scanner \<times> ScanResult \<Rightarrow> Scanner \<times> ScanResult"
where
  "depth_search q path listing depth (s, r) =
     (let (c, s') = read_cancelled s
      in if c \<or> depth > max_depth q then (s', r)
         else (case listing of
                 None \<Rightarrow> (s', r)
               | Some es \<Rightarrow> depth_entries q path es depth (s', r)))"
| "depth_entries q path [] depth (s, r) = (s, r)"
| "depth_entries q path (e # es) depth (s, r) =
     (let (c, s') = read_cancelled s
      in if c then (s', r)
         else depth_entries q path es depth (depth_entry q path e depth (s', r)))"
| "depth_entry q path (Dir name mtime_opt listing) depth (s, r) =
     (let name_lower = lower name; entry_path = join_path path name
      in case (if name_lower \<in> set (rules q)
               then (case mtime_opt of
                       None \<Rightarrow> Some (s, r)
                     | Some mtime \<Rightarrow>
                         if now q - mtime > threshold q
                         then Some (s, add_match (get_dir_size_for_scan listing) entry_path r)
                         else None)
               else None) of
           Some out \<Rightarrow> out
         | None \<Rightarrow>
             if name_lower \<in> set (skip q) \<or> startswith name ''.'' then (s, r)
             else depth_search q entry_path listing (depth + 1) (s, r))"
| "depth_entry q path (File name size_opt) depth (s, r) = (s, r)"
| "depth_entry q path (Other name) depth (s, r) = (s, r)"
| "depth_entry q path (Faulty name) depth (s, r) = (s, r)"

text \<open>\<open>_scan_developer_junk\<close>: the loop over the drives, then the method.\<close>

fun junk_drives ::
    "Platform \<Rightarrow> junk_search \<Rightarrow> string list \<Rightarrow> Scanner \<times> ScanResult \<Rightarrow> Scanner \<times> ScanResult"
where
  "junk_drives pf q [] (s, r) = (s, r)"
| "junk_drives pf q (d # ds) (s, r) =
     (let drive_path = d @ [sep]
      in if \<not> path_exists pf drive_path then junk_drives pf q ds (s, r)
         else (let (s1, r1) = depth_search q drive_path (scandir pf drive_path) 0 (s, r);
                   (c, s2) = read_cancelled s1
               in if c then (s2, r1) else junk_drives pf q ds (s2, r1)))"

definition scan_developer_junk ::
    "Platform \<Rightarrow> Config \<Rightarrow> string \<Rightarrow> string \<Rightarrow> Scanner \<Rightarrow> Scanner \<times> ScanResult"
where
  "scan_developer_junk pf cfg iid iname s =
     (let result = new_result iid iname;
          q = \<lparr>rules = DEVELOPER_CLEAN_RULES cfg, now = time_now pf,
               threshold = AGE_THRESHOLD_DAYS cfg * 24 * 3600, skip = skip_dirs, max_depth = 6\<rparr>;
          drives = (if drive s = ''ALL'' then get_available_drives pf else [drive s])
      in junk_drives pf q drives (s, result))"

section \<open>Generic directory scanner\<close>

text \<open>Line 187 to 190: the test that sends a file to \<open>continue\<close> for its extension.
  An allowlist that is \<open>None\<close> or empty is falsy and filters nothing.\<close>

definition ext_rejected :: "string list option \<Rightarrow> string \<Rightarrow> bool" where
  "ext_rejected extensions path =
     (case extensions of
        None \<Rightarrow> False
      | Some exts \<Rightarrow> exts \<noteq> [] \<and> lower (path_suffix path) \<notin> set exts)"

text \<open>Lines 193 and 203: \<open>pattern and pattern.lower() not in entry.path.lower()\<close>.\<close>

definition pattern_missing :: "string option \<Rightarrow> string \<Rightarrow> bool" where
  "pattern_missing pattern path =
     (case pattern of
        None \<Rightarrow> False
      | Some p \<Rightarrow> p \<noteq> [] \<and> \<not> str_contains (lower p) (lower path))"

text \<open>\<open>_scan_directory\<close>, with the loop \<open>scan_entries\<close> and its body \<open>scan_entry\<close>.\<close>

fun scan_directory ::
    "string \<Rightarrow> entry list option \<Rightarrow> string list option \<Rightarrow> string option
      \<Rightarrow> Scanner \<times> ScanResult \<Rightarrow> Scanner \<times> ScanResult"
  and scan_entries ::
    "string \<Rightarrow> entry list \<Rightarrow> string list option \<Rightarrow> string option
      \<Rightarrow> Scanner \<times> ScanResult \<Rightarrow> Scanner \<times> ScanResult"
  and scan_entry ::
    "string \<Rightarrow> entry \<Rightarrow> string list option \<Rightarrow> string option
      \<Rightarrow> Scanner \<times> ScanResult \<Rightarrow> Scanner \<times> ScanResult"
where
  "scan_directory directory None extensions pattern (s, r) = (s, r)"
| "scan_directory directory (Some es) extensions pattern (s, r) =
     scan_entries directory es extensions pattern (s, r)"
| "scan_entries directory [] extensions pattern (s, r) = (s, r)"
| "scan_entries directory (e # es) extensions pattern (s, r) =
     (let (c, s') = read_cancelled s
      in if c then (s', r)
         else scan_entries directory es extensions pattern
                (scan_entry directory e extensions pattern (s', r)))"
| "scan_entry directory (File name size_opt) extensions pattern (s, r) =
     (let path = join_path directory name
      in if ext_rejected extensions path then (s, r)
         else if pattern_missing pattern path then (s, r)
         else (case size_opt of
                 None \<Rightarrow> (s, r)
               | Some n \<Rightarrow> (s, add_match n path r)))"
| "scan_entry directory (Dir name mtime_opt listing) extensions pattern (s, r) =
     (let path = join_path directory name
      in if pattern_missing pattern path
         then scan_directory path listing extensions pattern (s, r)
         else scan_directory path listing extensions None (s, r))"
| "scan_entry directory (Other name) extensions pattern (s, r) = (s, r)"
| "scan_entry directory (Faulty name) extensions pattern (s, r) = (s, r)"

text \<open>Lines 130 to 143 of \<open>_scan_item\<close>: the concrete paths of one path template.\<close>

definition target_paths :: "Platform \<Rightarrow> string \<Rightarrow> string \<Rightarrow> string list" where
  "target_paths pf drv path_template =
     (if drv = ''ALL''
      then (if startswith (lower path_template) ''c:''
            then map (\<lambda>d. d @ drop 2 path_template) (get_available_drives pf)
            else [path_template])
      else (if startswith (lower path_template) ''c:''
            then [drv @ drop 2 path_template]
            else [path_template]))"

text \<open>
  \<open>_scan_item\<close>: the inner loop over the concrete paths, the outer loop over the
  templates. \<open>_scan_directory\<close> swallows every \<open>OSError\<close> itself, so the two handlers
  around its call (lines 156 to 159) are reached by no failure of the file system.
\<close>

fun scan_targets ::
    "Platform \<Rightarrow> string list \<Rightarrow> string list option \<Rightarrow> string option
      \<Rightarrow> Scanner \<times> ScanResult \<Rightarrow> Scanner \<times> ScanResult"
where
  "scan_targets pf [] extensions pattern (s, r) = (s, r)"
| "scan_targets pf (path # ps) extensions pattern (s, r) =
     scan_targets pf ps extensions pattern
       (if \<not> path_exists pf path then (s, r)
        else scan_directory path (scandir pf path) extensions pattern (s, r))"

fun scan_paths ::
    "Platform \<Rightarrow> string list \<Rightarrow> string list option \<Rightarrow> string option
      \<Rightarrow> Scanner \<times> ScanResult \<Rightarrow> Scanner \<times> ScanResult"
where
  "scan_paths pf [] extensions pattern (s, r) = (s, r)"
| "scan_paths pf (path_template # ts) extensions pattern (s, r) =
     (let (c, s') = read_cancelled s
      in if c then (s', r)
         else scan_paths pf ts extensions pattern
                (scan_targets pf (target_paths pf (drive s') path_template)
                   extensions pattern (s', r)))"

definition scan_item :: "Platform \<Rightarrow> CleanupItem \<Rightarrow> Scanner \<Rightarrow> Scanner \<times> ScanResult" where
  "scan_item pf item s =
     scan_paths pf (ci_paths item) (ci_extensions item) (ci_pattern item)
       (s, new_result (ci_id item) (ci_name item))"

section \<open>Recycle-bin probe\<close>

text \<open>The message of line 252, in UTF-8.\<close>

definition msg_recycle_bin_failed :: string where
  "msg_recycle_bin_failed =
     [CHR 0xE6, CHR 0x97, CHR 0xA0, CHR 0xE6, CHR 0xB3, CHR 0x95, CHR 0xE8, CHR 0x8E, CHR 0xB7,
      CHR 0xE5, CHR 0x8F, CHR 0x96, CHR 0xE5, CHR 0x9B, CHR 0x9E, CHR 0xE6, CHR 0x94, CHR 0xB6,
      CHR 0xE7, CHR 0xAB, CHR 0x99, CHR 0xE4, CHR 0xBF, CHR 0xA1, CHR 0xE6, CHR 0x81, CHR 0xAF]"

definition scan_recycle_bin ::
    "Platform \<Rightarrow> string \<Rightarrow> string \<Rightarrow> string option \<Rightarrow> ScanResult"
where
  "scan_recycle_bin pf iid iname drive_path =
     (let result = new_result iid iname
      in case SHQueryRecycleBinW pf drive_path of
           Returned ret i64Size i64NumItems \<Rightarrow>
             if ret = 0 then result\<lparr>total_size := i64Size, file_count := i64NumItems\<rparr>
             else result\<lparr>error := Some msg_recycle_bin_failed\<rparr>
         | Raised e \<Rightarrow> result\<lparr>error := Some e\<rparr>)"

section \<open>Progress percentage\<close>

text \<open>
  \<open>int((index / total_items) * 100)\<close> is computed in binary floating point: the
  quotient of the two integers is rounded to the nearest double (ties to even), so is
  its product with 100, and \<open>int\<close> truncates. A positive double is written here as a
  fraction \<open>(m, 2 ^ p)\<close> with a 53-bit numerator. Exponent overflow and underflow are
  left out: they cannot occur for quotients between \<open>2 ^ - 1000\<close> and \<open>2 ^ 53\<close>.
\<close>

definition round_half_even :: "nat \<Rightarrow> nat \<Rightarrow> nat" where
  "round_half_even a b =
     (let q = a div b; r = a mod b
      in if 2 * r < b then q
         else if 2 * r > b then q + 1
         else if even q then q else q + 1)"

text \<open>The least \<open>p\<close> with \<open>c \<le> a * 2 ^ p\<close>, for \<open>a > 0\<close>.\<close>

function scale_bits :: "nat \<Rightarrow> nat \<Rightarrow> nat" where
  "scale_bits a c = (if a = 0 \<or> c \<le> a then 0 else Suc (scale_bits (2 * a) c))"
  by pat_completeness auto
termination
  by (relation "measure (\<lambda>(a, c). c - a)") auto

definition to_double :: "nat \<Rightarrow> nat \<Rightarrow> nat \<times> nat" where
  "to_double a b =
     (let p = scale_bits a (b * 2 ^ 52)
      in (round_half_even (a * 2 ^ p) b, 2 ^ p))"

definition progress_percent :: "nat \<Rightarrow> nat \<Rightarrow> nat" where
  "progress_percent index total_items =
     (let (m, d) = to_double index total_items;
          (m', d') = to_double (m * 100) d
      in m' div d')"

section \<open>Rule dispatcher\<close>

text \<open>The label of the last notification (line 102), in UTF-8.\<close>

definition msg_scan_complete :: string where
  "msg_scan_complete =
     [CHR 0xE6, CHR 0x89, CHR 0xAB, CHR 0xE6, CHR 0x8F, CHR 0x8F,
      CHR 0xE5, CHR 0xAE, CHR 0x8C, CHR 0xE6, CHR 0x88, CHR 0x90]"

definition notify :: "string \<Rightarrow> nat \<Rightarrow> Scanner \<Rightarrow> Scanner" where
  "notify label percent s =
     (if progress_callback s then s\<lparr>emitted := emitted s @ [(label, percent)]\<rparr> else s)"

text \<open>Lines 89 to 97: the choice of the strategy for one item.\<close>

definition dispatch :: "Platform \<Rightarrow> Config \<Rightarrow> CleanupItem \<Rightarrow> Scanner \<Rightarrow> Scanner \<times> ScanResult" where
  "dispatch pf cfg item s =
     (if ci_special item = Some ''recycle_bin''
      then (if drive s = ''ALL''
            then (s, scan_recycle_bin pf (ci_id item) (ci_name item) None)
            else (s, scan_recycle_bin pf (ci_id item) (ci_name item) (Some (drive s @ [sep]))))
      else if ci_special item = Some ''developer_mode''
      then scan_developer_junk pf cfg (ci_id item) (ci_name item) s
      else scan_item pf item s)"

text \<open>The loop of \<open>scan_all\<close> from position \<open>index\<close> on, over the items still to do.\<close>

fun scan_loop ::
    "Platform \<Rightarrow> Config \<Rightarrow> nat \<Rightarrow> nat \<Rightarrow> CleanupItem list \<Rightarrow> Scanner \<Rightarrow> Scanner"
where
  "scan_loop pf cfg total_items index [] s = s"
| "scan_loop pf cfg total_items index (item # items) s =
     (let (c, s0) = read_cancelled s
      in if c then s0
         else (let s1 = notify (ci_name item) (progress_percent index total_items) s0;
                   (s2, result) = dispatch pf cfg item s1
               in scan_loop pf cfg total_items (index + 1) items
                    (s2\<lparr>results := (results s2)(ci_id item \<mapsto> result)\<rparr>)))"

text \<open>\<open>scan_all\<close>; the mapping it returns is \<open>results\<close> of the scanner it leaves.\<close>

definition scan_all :: "Platform \<Rightarrow> Config \<Rightarrow> Scanner \<Rightarrow> Scanner" where
  "scan_all pf cfg s =
     (let s0 = s\<lparr>cancelled := False, results := Map.empty\<rparr>;
          s1 = scan_loop pf cfg (length (CLEANUP_ITEMS cfg)) 0 (CLEANUP_ITEMS cfg) s0
      in notify msg_scan_complete 100 s1)"

section \<open>Auxiliary notions and sample inputs\<close>

text \<open>A scanner on which no cancellation is set or under way.\<close>

definition idle :: "Scanner \<Rightarrow> bool" where
  "idle s = (\<not> cancelled s \<and> pending_cancel s = None)"

text \<open>Two scanner states that differ at most in the cancellation flag: what a
  traversal may change.\<close>

definition frame :: "Scanner \<Rightarrow> Scanner \<Rightarrow> bool" where
  "frame s s' =
     (progress_callback s' = progress_callback s \<and> drive s' = drive s \<and>
      results s' = results s \<and> emitted s' = emitted s)"

text \<open>
  Sample inputs: a platform with the fixed drives \<open>C:\<close> and \<open>D:\<close> and a recycle bin
  of 7 bytes in 3 items, a configuration of three items, and a scanner for drive
  \<open>C:\<close> with a callback installed, on which a concurrent \<open>cancel()\<close> is under way
  as given.
\<close>

definition ex_platform :: Platform where
  "ex_platform =
     \<lparr>get_available_drives = [''C:'', ''D:''], path_exists = (\<lambda>p. False),
      scandir = (\<lambda>p. None), time_now = 1000,
      SHQueryRecycleBinW = (\<lambda>p. Returned 0 7 3)\<rparr>"

definition ex_item :: "string \<Rightarrow> string option \<Rightarrow> CleanupItem" where
  "ex_item i sp =
     \<lparr>ci_id = i, ci_name = i, ci_paths = [], ci_extensions = None, ci_pattern = None,
      ci_special = sp\<rparr>"

definition ex_config :: Config where
  "ex_config =
     \<lparr>CLEANUP_ITEMS = [ex_item ''temp'' None, ex_item ''bin'' (Some ''recycle_bin''),
        ex_item ''logs'' None],
      DEVELOPER_CLEAN_RULES = [''node_modules'', ''dist''], AGE_THRESHOLD_DAYS = 30\<rparr>"

definition ex_scanner :: "nat option \<Rightarrow> Scanner" where
  "ex_scanner pc =
     \<lparr>progress_callback = True, drive = ''C:'', results = Map.empty, cancelled = False,
      pending_cancel = pc, emitted = []\<rparr>"

definition ex_failing_platform :: Platform where
  "ex_failing_platform = ex_platform\<lparr>SHQueryRecycleBinW := (\<lambda>p. Returned 1 7 3)\<rparr>"

definition ex_junk_search :: junk_search where
  "ex_junk_search =
     \<lparr>rules = [''node_modules'', ''dist''], now = 1000, threshold = 100, skip = skip_dirs,
      max_depth = 6\<rparr>"

definition ex_root :: string where
  "ex_root = ''C:'' @ [sep]"

definition ex_recent_tree :: entry where
  "ex_recent_tree =
     Dir ''node_modules'' (Some 950)
       (Some [Dir ''dist'' (Some 10) (Some [File ''a.js'' (Some 5)])])"

definition ex_old_listing :: "entry list option" where
  "ex_old_listing =
     Some [File ''a.js'' (Some 5), Dir ''dist'' (Some 10) (Some [File ''b.js'' (Some 7)]),
           Other ''link'', File ''locked'' None, Dir ''private'' (Some 10) None]"

text \<open>The sizes of the regular files at any depth below a directory, as far as they can
  be read: links and special files are left out, and so is what raises.\<close>

fun sizes_below :: "entry list option \<Rightarrow> nat list"
  and sizes_in_entries :: "entry list \<Rightarrow> nat list"
  and sizes_in_entry :: "entry \<Rightarrow> nat list"
where
  "sizes_below None = []"
| "sizes_below (Some es) = sizes_in_entries es"
| "sizes_in_entries [] = []"
| "sizes_in_entries (e # es) = sizes_in_entry e @ sizes_in_entries es"
| "sizes_in_entry (File name None) = []"
| "sizes_in_entry (File name (Some n)) = [n]"
| "sizes_in_entry (Dir name mtime listing) = sizes_below listing"
| "sizes_in_entry (Other name) = []"
| "sizes_in_entry (Faulty name) = []"

text \<open>A result that has only gained: no total went down, and the paths of before are
  the first paths of after.\<close>

definition grows :: "ScanResult \<Rightarrow> ScanResult \<Rightarrow> bool" where
  "grows r r' =
     (total_size r \<le> total_size r' \<and> file_count r \<le> file_count r' \<and>
      prefix (files r) (files r'))"

text \<open>
  The directory scan without the shortcut for directories: the pattern is handed down
  unchanged, so that it is tested on the full path of every file. The loop and the
  treatment of files are those of \<open>scan_directory\<close>.
\<close>

fun naive_directory ::
    "string \<Rightarrow> entry list option \<Rightarrow> string list option \<Rightarrow> string option
      \<Rightarrow> Scanner \<times> ScanResult \<Rightarrow> Scanner \<times> ScanResult"
  and naive_entries ::
    "string \<Rightarrow> entry list \<Rightarrow> string list option \<Rightarrow> string option
      \<Rightarrow> Scanner \<times> ScanResult \<Rightarrow> Scanner \<times> ScanResult"
  and naive_entry ::
    "string \<Rightarrow> entry \<Rightarrow> string list option \<Rightarrow> string option
      \<Rightarrow> Scanner \<times> ScanResult \<Rightarrow> Scanner \<times> ScanResult"
where
  "naive_directory directory None extensions pattern (s, r) = (s, r)"
| "naive_directory directory (Some es) extensions pattern (s, r) =
     naive_entries directory es extensions pattern (s, r)"
| "naive_entries directory [] extensions pattern (s, r) = (s, r)"
| "naive_entries directory (e # es) extensions pattern (s, r) =
     (let (c, s') = read_cancelled s
      in if c then (s', r)
         else naive_entries directory es extensions pattern
                (naive_entry directory e extensions pattern (s', r)))"
| "naive_entry directory (File name size_opt) extensions pattern (s, r) =
     (let path = join_path directory name
      in if ext_rejected extensions path then (s, r)
         else if pattern_missing pattern path then (s, r)
         else (case size_opt of
                 None \<Rightarrow> (s, r)
               | Some n \<Rightarrow> (s, add_match n path r)))"
| "naive_entry directory (Dir name mtime_opt listing) extensions pattern (s, r) =
     naive_directory (join_path directory name) listing extensions pattern (s, r)"
| "naive_entry directory (Other name) extensions pattern (s, r) = (s, r)"
| "naive_entry directory (Faulty name) extensions pattern (s, r) = (s, r)"

definition ex_temp_path :: string where
  "ex_temp_path = ''C:'' @ [sep] @ ''Windows'' @ [sep] @ ''Temp''"

definition ex_other_drive_path :: string where
  "ex_other_drive_path = ''D:'' @ [sep] @ ''Temp''"

text \<open>The extension filter in the words of the specification: letter case aside, some
  entry of the allowlist is a suffix of the path.\<close>

definition ci_suffix_match :: "string list \<Rightarrow> string \<Rightarrow> bool" where
  "ci_suffix_match exts path = list_ex (\<lambda>e. suffix (lower e) (lower path)) exts"

definition ex_fifty_config :: Config where
  "ex_fifty_config =
     \<lparr>CLEANUP_ITEMS = replicate 50 (ex_item ''rule'' None), DEVELOPER_CLEAN_RULES = [],
      AGE_THRESHOLD_DAYS = 30\<rparr>"

section \<open>Properties\<close>

lemmas tree_induct = get_dir_size_for_scan_dir_size_entries_dir_size_entry.induct

lemma read_idle [simp]: "idle s \<Longrightarrow> read_cancelled s = (False, s)"
  by (simp add: idle_def read_cancelled_def)

lemma read_cancelled_set [simp]: "cancelled s \<Longrightarrow> read_cancelled s = (True, s)"
  by (simp add: read_cancelled_def)

lemma depth_search_idle:
  "idle s \<Longrightarrow> fst (depth_search q path listing depth (s, r)) = s"
  "idle s \<Longrightarrow> fst (depth_entries q path es depth (s, r)) = s"
  "idle s \<Longrightarrow> fst (depth_entry q path e depth (s, r)) = s"
proof (induction listing and es and e arbitrary: path depth r and path depth r and path depth r
    rule: tree_induct)
  case (4 e es)
  obtain s1 r1 where e1: "depth_entry q path e depth (s, r) = (s1, r1)"
    by (cases "depth_entry q path e depth (s, r)")
  with 4(1)[OF 4(3), of path depth r] have "s1 = s" by simp
  with 4(2)[OF 4(3), of path depth r1] e1 4(3) show ?case by simp
next
  case (6 name mtime listing)
  then show ?case by (simp add: Let_def split: option.splits)
qed simp_all

lemma scan_directory_idle:
  "idle s \<Longrightarrow> fst (scan_directory d listing exts pat (s, r)) = s"
  "idle s \<Longrightarrow> fst (scan_entries d es exts pat (s, r)) = s"
  "idle s \<Longrightarrow> fst (scan_entry d e exts pat (s, r)) = s"
proof (induction listing and es and e arbitrary: d pat r and d pat r and d pat r
    rule: tree_induct)
  case (4 e es)
  obtain s1 r1 where e1: "scan_entry d e exts pat (s, r) = (s1, r1)"
    by (cases "scan_entry d e exts pat (s, r)")
  with 4(1)[OF 4(3), of d pat r] have "s1 = s" by simp
  with 4(2)[OF 4(3), of d pat r1] e1 4(3) show ?case by simp
next
  case (5 name size_opt)
  then show ?case by (simp add: Let_def split: option.splits)
next
  case (6 name mtime listing)
  then show ?case by (simp add: Let_def)
qed simp_all

lemma scan_targets_idle:
  "idle s \<Longrightarrow> fst (scan_targets pf ps exts pat (s, r)) = s"
proof (induction ps arbitrary: r)
  case (Cons p ps)
  obtain s1 r1 where e1: "scan_directory p (scandir pf p) exts pat (s, r) = (s1, r1)"
    by (cases "scan_directory p (scandir pf p) exts pat (s, r)")
  with scan_directory_idle(1)[OF Cons.prems, of p "scandir pf p" exts pat r] have "s1 = s" by simp
  with Cons e1 show ?case by simp
qed simp

lemma scan_paths_idle:
  "idle s \<Longrightarrow> fst (scan_paths pf ts exts pat (s, r)) = s"
proof (induction ts arbitrary: r)
  case (Cons t ts)
  obtain s1 r1 where e1: "scan_targets pf (target_paths pf (drive s) t) exts pat (s, r) = (s1, r1)"
    by (cases "scan_targets pf (target_paths pf (drive s) t) exts pat (s, r)")
  with scan_targets_idle[OF Cons.prems, of pf "target_paths pf (drive s) t" exts pat r]
  have "s1 = s" by simp
  with Cons e1 show ?case by simp
qed simp

lemma junk_drives_idle:
  "idle s \<Longrightarrow> fst (junk_drives pf q ds (s, r)) = s"
proof (induction ds arbitrary: r)
  case (Cons d ds)
  obtain s1 r1 where e1: "depth_search q (d @ [sep]) (scandir pf (d @ [sep])) 0 (s, r) = (s1, r1)"
    by (cases "depth_search q (d @ [sep]) (scandir pf (d @ [sep])) 0 (s, r)")
  with depth_search_idle(1)[OF Cons.prems, of q "d @ [sep]" "scandir pf (d @ [sep])" 0 r]
  have "s1 = s" by simp
  with Cons e1 show ?case by (simp add: Let_def)
qed simp

lemma dispatch_idle:
  "idle s \<Longrightarrow> fst (dispatch pf cfg item s) = s"
  by (simp add: dispatch_def scan_item_def scan_developer_junk_def Let_def
      scan_paths_idle junk_drives_idle)

lemma idle_notify [simp]: "idle (notify l p s) = idle s"
  by (simp add: notify_def idle_def)

lemma idle_results_update [simp]: "idle (s\<lparr>results := m\<rparr>) = idle s"
  by (simp add: idle_def)

lemma results_notify [simp]: "results (notify l p s) = results s"
  by (simp add: notify_def)

lemma scan_loop_idle:
  "idle s \<Longrightarrow>
     idle (scan_loop pf cfg n i items s) \<and>
     dom (results (scan_loop pf cfg n i items s)) = dom (results s) \<union> ci_id ` set items"
proof (induction items arbitrary: s i)
  case (Cons item items)
  let ?s1 = "notify (ci_name item) (progress_percent i n) s"
  have i1: "idle ?s1" using Cons.prems by simp
  obtain s2 r2 where d: "dispatch pf cfg item ?s1 = (s2, r2)"
    by (cases "dispatch pf cfg item ?s1")
  with dispatch_idle[OF i1, of pf cfg item] have s2: "s2 = ?s1" by simp
  let ?s3 = "?s1\<lparr>results := (results ?s1)(ci_id item \<mapsto> r2)\<rparr>"
  have "idle ?s3" using i1 by simp
  from Cons.IH[OF this, of "i + 1"] Cons.prems d s2 show ?case by auto
qed simp

lemma frame_refl [simp]: "frame s s"
  by (simp add: frame_def)

lemma frame_trans: "frame s s1 \<Longrightarrow> frame s1 s2 \<Longrightarrow> frame s s2"
  by (simp add: frame_def)

lemma frame_read: "read_cancelled s = (c, s') \<Longrightarrow> frame s s'"
  by (auto simp: read_cancelled_def frame_def split: if_splits option.splits)

lemma depth_search_frame:
  "frame s (fst (depth_search q path listing depth (s, r)))"
  "frame s (fst (depth_entries q path es depth (s, r)))"
  "frame s (fst (depth_entry q path e depth (s, r)))"
proof (induction listing and es and e arbitrary: path depth s r and path depth s r and path depth s r
    rule: tree_induct)
  case 1
  obtain c s' where rc: "read_cancelled s = (c, s')" by (cases "read_cancelled s")
  with frame_read[OF rc] show ?case by simp
next
  case (2 es)
  obtain c s' where rc: "read_cancelled s = (c, s')" by (cases "read_cancelled s")
  from frame_read[OF rc] 2[where s = s' and r = r and path = path and depth = depth] rc show ?case
    by (auto intro: frame_trans)
next
  case (4 e es)
  obtain c s' where rc: "read_cancelled s = (c, s')" by (cases "read_cancelled s")
  obtain s1 r1 where e1: "depth_entry q path e depth (s', r) = (s1, r1)"
    by (cases "depth_entry q path e depth (s', r)")
  from 4(1)[where s = s' and r = r and path = path and depth = depth] e1 have f1: "frame s' s1" by simp
  from 4(2)[where s = s1 and r = r1 and path = path and depth = depth] have f2: "frame s1 (fst (depth_entries q path es depth (s1, r1)))" .
  from frame_read[OF rc] f1 f2 rc e1 show ?case
    by (auto intro: frame_trans)
next
  case (6 name mtime listing)
  then show ?case by (simp add: Let_def split: option.splits)
qed simp_all

lemma scan_directory_frame:
  "frame s (fst (scan_directory d listing exts pat (s, r)))"
  "frame s (fst (scan_entries d es exts pat (s, r)))"
  "frame s (fst (scan_entry d e exts pat (s, r)))"
proof (induction listing and es and e arbitrary: d pat s r and d pat s r and d pat s r
    rule: tree_induct)
  case (4 e es)
  obtain c s' where rc: "read_cancelled s = (c, s')" by (cases "read_cancelled s")
  obtain s1 r1 where e1: "scan_entry d e exts pat (s', r) = (s1, r1)"
    by (cases "scan_entry d e exts pat (s', r)")
  from 4(1)[where s = s' and r = r and d = d and pat = pat] e1 have f1: "frame s' s1" by simp
  from 4(2)[where s = s1 and r = r1 and d = d and pat = pat] have f2: "frame s1 (fst (scan_entries d es exts pat (s1, r1)))" .
  from frame_read[OF rc] f1 f2 rc e1 show ?case
    by (auto intro: frame_trans)
next
  case (5 name size_opt)
  then show ?case by (simp add: Let_def split: option.splits)
next
  case (6 name mtime listing)
  then show ?case by (simp add: Let_def)
qed simp_all

lemma scan_targets_frame:
  "frame s (fst (scan_targets pf ps exts pat (s, r)))"
proof (induction ps arbitrary: s r)
  case (Cons p ps)
  show ?case
  proof (cases "path_exists pf p")
    case True
    obtain s1 r1 where e1: "scan_directory p (scandir pf p) exts pat (s, r) = (s1, r1)"
      by (cases "scan_directory p (scandir pf p) exts pat (s, r)")
    with scan_directory_frame(1)[of s p "scandir pf p" exts pat r] have "frame s s1" by simp
    with Cons[of s1 r1] e1 True show ?thesis by (auto intro: frame_trans)
  next
    case False
    with Cons[of s r] show ?thesis by simp
  qed
qed simp

lemma scan_paths_frame:
  "frame s (fst (scan_paths pf ts exts pat (s, r)))"
proof (induction ts arbitrary: s r)
  case (Cons t ts)
  obtain c s' where rc: "read_cancelled s = (c, s')" by (cases "read_cancelled s")
  obtain s1 r1 where e1: "scan_targets pf (target_paths pf (drive s') t) exts pat (s', r) = (s1, r1)"
    by (cases "scan_targets pf (target_paths pf (drive s') t) exts pat (s', r)")
  with scan_targets_frame[of s' pf "target_paths pf (drive s') t" exts pat r]
  have "frame s' s1" by simp
  with frame_read[OF rc] Cons[of s1 r1] rc e1 show ?case by (auto intro: frame_trans)
qed simp

lemma junk_drives_frame:
  "frame s (fst (junk_drives pf q ds (s, r)))"
proof (induction ds arbitrary: s r)
  case (Cons d ds)
  show ?case
  proof (cases "path_exists pf (d @ [sep])")
    case True
    obtain s1 r1 where e1: "depth_search q (d @ [sep]) (scandir pf (d @ [sep])) 0 (s, r) = (s1, r1)"
      by (cases "depth_search q (d @ [sep]) (scandir pf (d @ [sep])) 0 (s, r)")
    with depth_search_frame(1)[of s q "d @ [sep]" "scandir pf (d @ [sep])" 0 r]
    have f1: "frame s s1" by simp
    obtain c s2 where rc: "read_cancelled s1 = (c, s2)" by (cases "read_cancelled s1")
    from f1 frame_read[OF rc] Cons[of s2 r1] rc e1 True show ?thesis
      by (auto simp: Let_def intro: frame_trans)
  next
    case False
    with Cons[of s r] show ?thesis by (simp add: Let_def)
  qed
qed simp

lemma dispatch_frame:
  "frame s (fst (dispatch pf cfg item s))"
  by (simp add: dispatch_def scan_item_def scan_developer_junk_def Let_def
      scan_paths_frame junk_drives_frame)

lemma read_cancelled_sticky:
  "read_cancelled s = (True, s') \<Longrightarrow> cancelled s'"
  by (auto simp: read_cancelled_def split: if_splits option.splits)

lemma scan_loop_cancelled [simp]:
  "cancelled s \<Longrightarrow> scan_loop pf cfg n i items s = s"
  by (cases items) simp_all

lemma scan_loop_append:
  "scan_loop pf cfg n i (pre @ rest) s =
     scan_loop pf cfg n (i + length pre) rest (scan_loop pf cfg n i pre s)"
proof (induction pre arbitrary: s i)
  case (Cons item pre)
  obtain c s0 where rc: "read_cancelled s = (c, s0)" by (cases "read_cancelled s")
  show ?case
  proof (cases c)
    case True
    with rc read_cancelled_sticky[of s s0] show ?thesis by simp
  next
    case False
    with rc Cons show ?thesis by (simp add: Let_def split: prod.splits)
  qed
qed simp

lemma scan_loop_dom:
  "dom (results (scan_loop pf cfg n i items s)) \<subseteq> dom (results s) \<union> ci_id ` set items"
proof (induction items arbitrary: s i)
  case (Cons item items)
  obtain c s0 where rc: "read_cancelled s = (c, s0)" by (cases "read_cancelled s")
  from frame_read[OF rc] have r0: "results s0 = results s" by (simp add: frame_def)
  let ?s1 = "notify (ci_name item) (progress_percent i n) s0"
  obtain s2 r2 where d: "dispatch pf cfg item ?s1 = (s2, r2)"
    by (cases "dispatch pf cfg item ?s1")
  with dispatch_frame[of ?s1 pf cfg item] have r2: "results s2 = results s0"
    by (simp add: frame_def)
  from Cons[of "i + 1" "s2\<lparr>results := (results s2)(ci_id item \<mapsto> r2)\<rparr>"] rc r0 r2 d
  show ?case by auto
qed simp

text \<open>
  Claim C5. Let the flag be read as true at the top of the loop of \<open>scan_all\<close>, when
  the items \<open>reached\<close> have been dispatched and \<open>item\<close> is the next one. Then the run
  ends there: what \<open>scan_all\<close> leaves is the scanner at that read, with the closing
  notification and nothing else added. The keys of the mapping it returns are among the
  ids of \<open>reached\<close>, and an item not reached has no entry at all under its id (unless
  an item that was reached has the same id).
\<close>

theorem scan_all_cancel_stops_dispatch:
  assumes "CLEANUP_ITEMS cfg = reached @ item # later"
    and "fst (read_cancelled (scan_loop pf cfg (length (CLEANUP_ITEMS cfg)) 0 reached
           (s\<lparr>cancelled := False, results := Map.empty\<rparr>)))"
  shows "scan_all pf cfg s =
           notify msg_scan_complete 100
             (snd (read_cancelled (scan_loop pf cfg (length (CLEANUP_ITEMS cfg)) 0 reached
                (s\<lparr>cancelled := False, results := Map.empty\<rparr>))))
         \<and> dom (results (scan_all pf cfg s)) \<subseteq> ci_id ` set reached
         \<and> (\<forall>x \<in> set (item # later).
               ci_id x \<notin> ci_id ` set reached \<longrightarrow> results (scan_all pf cfg s) (ci_id x) = None)"
proof -
  let ?n = "length (CLEANUP_ITEMS cfg)"
  let ?s0 = "s\<lparr>cancelled := False, results := Map.empty\<rparr>"
  let ?sk = "scan_loop pf cfg ?n 0 reached ?s0"
  obtain s' where rc: "read_cancelled ?sk = (True, s')"
    using assms(2) by (cases "read_cancelled ?sk") simp
  have "scan_loop pf cfg ?n 0 (CLEANUP_ITEMS cfg) ?s0 = scan_loop pf cfg ?n (length reached) (item # later) ?sk"
    using assms(1) scan_loop_append[of pf cfg ?n 0 reached "item # later" ?s0] by simp
  also have "\<dots> = s'" using rc by simp
  finally have all: "scan_all pf cfg s = notify msg_scan_complete 100 s'"
    by (simp add: scan_all_def Let_def)
  from frame_read[OF rc] have "results s' = results ?sk" by (simp add: frame_def)
  with all have res: "results (scan_all pf cfg s) = results ?sk" by simp
  have sub: "dom (results (scan_all pf cfg s)) \<subseteq> ci_id ` set reached"
    using scan_loop_dom[of pf cfg ?n 0 reached ?s0] res by simp
  from all rc sub show ?thesis by (auto simp: domIff)
qed

text \<open>With three items and a \<open>cancel()\<close> that lands after the first read of the flag,
  only the first item has an entry.\<close>

theorem scan_all_cancel_stops_dispatch_witness:
  "CLEANUP_ITEMS ex_config = [ex_item ''temp'' None] @ ex_item ''bin'' (Some ''recycle_bin'') # [ex_item ''logs'' None]
   \<and> fst (read_cancelled (scan_loop ex_platform ex_config (length (CLEANUP_ITEMS ex_config)) 0
          [ex_item ''temp'' None] ((ex_scanner (Some 1))\<lparr>cancelled := False, results := Map.empty\<rparr>)))
   \<and> dom (results (scan_all ex_platform ex_config (ex_scanner (Some 1)))) \<subseteq> {''temp''}
   \<and> results (scan_all ex_platform ex_config (ex_scanner (Some 1))) ''bin'' = None
   \<and> results (scan_all ex_platform ex_config (ex_scanner (Some 1))) ''logs'' = None"
proof -
  have h1: "CLEANUP_ITEMS ex_config =
      [ex_item ''temp'' None] @ ex_item ''bin'' (Some ''recycle_bin'') # [ex_item ''logs'' None]"
    by (simp add: ex_config_def)
  have h2: "fst (read_cancelled (scan_loop ex_platform ex_config (length (CLEANUP_ITEMS ex_config)) 0
          [ex_item ''temp'' None] ((ex_scanner (Some 1))\<lparr>cancelled := False, results := Map.empty\<rparr>)))"
    by (simp add: ex_scanner_def ex_item_def read_cancelled_def notify_def dispatch_def
        scan_item_def)
  note t = scan_all_cancel_stops_dispatch[OF h1 h2]
  from t have d: "dom (results (scan_all ex_platform ex_config (ex_scanner (Some 1))))
      \<subseteq> ci_id ` set [ex_item ''temp'' None]"
    by blast
  from t have n: "\<forall>x \<in> set (ex_item ''bin'' (Some ''recycle_bin'') # [ex_item ''logs'' None]).
      ci_id x \<notin> ci_id ` set [ex_item ''temp'' None] \<longrightarrow>
      results (scan_all ex_platform ex_config (ex_scanner (Some 1))) (ci_id x) = None"
    by blast
  from d have d': "dom (results (scan_all ex_platform ex_config (ex_scanner (Some 1)))) \<subseteq> {''temp''}"
    by (simp add: ex_item_def)
  from n have n': "results (scan_all ex_platform ex_config (ex_scanner (Some 1))) ''bin'' = None
      \<and> results (scan_all ex_platform ex_config (ex_scanner (Some 1))) ''logs'' = None"
    by (simp add: ex_item_def)
  from h1 h2 d' n' show ?thesis by blast
qed

text \<open>
  Claim C10. \<open>scan_all\<close> starts by clearing the flag, so a \<open>cancel()\<close> issued before
  the call changes nothing in the run. When moreover no \<open>cancel()\<close> arrives during
  the run, every configured item is dispatched and the flag is still clear at the end.
\<close>

theorem cancel_before_scan_all:
  "scan_all pf cfg (cancel s) = scan_all pf cfg s
   \<and> (pending_cancel s = None \<longrightarrow>
        dom (results (scan_all pf cfg (cancel s))) = ci_id ` set (CLEANUP_ITEMS cfg)
        \<and> \<not> cancelled (scan_all pf cfg (cancel s)))"
proof -
  let ?s0 = "s\<lparr>cancelled := False, results := Map.empty\<rparr>"
  have eq: "scan_all pf cfg (cancel s) = scan_all pf cfg s"
    by (simp add: scan_all_def cancel_def)
  have "idle ?s0" if "pending_cancel s = None" using that by (simp add: idle_def)
  from scan_loop_idle[OF this, of pf cfg "length (CLEANUP_ITEMS cfg)" 0 "CLEANUP_ITEMS cfg"]
  have "pending_cancel s = None \<Longrightarrow>
        dom (results (scan_all pf cfg s)) = ci_id ` set (CLEANUP_ITEMS cfg)
        \<and> \<not> cancelled (scan_all pf cfg s)"
    by (simp add: scan_all_def Let_def idle_def notify_def)
  with eq show ?thesis by simp
qed

text \<open>A cancelled scanner on the sample configuration still scans all three items.\<close>

theorem cancel_before_scan_all_witness:
  "pending_cancel (ex_scanner None) = None
   \<and> scan_all ex_platform ex_config (cancel (ex_scanner None)) = scan_all ex_platform ex_config (ex_scanner None)
   \<and> dom (results (scan_all ex_platform ex_config (cancel (ex_scanner None)))) = {''temp'', ''bin'', ''logs''}"
proof -
  have h: "pending_cancel (ex_scanner None) = None" by (simp add: ex_scanner_def)
  from cancel_before_scan_all[of ex_platform ex_config "ex_scanner None"] h
  have e: "scan_all ex_platform ex_config (cancel (ex_scanner None)) =
      scan_all ex_platform ex_config (ex_scanner None)"
    and d: "dom (results (scan_all ex_platform ex_config (cancel (ex_scanner None)))) =
      ci_id ` set (CLEANUP_ITEMS ex_config)"
    by blast+
  have "ci_id ` set (CLEANUP_ITEMS ex_config) = {''temp'', ''bin'', ''logs''}"
    by (simp add: ex_config_def ex_item_def)
  with h e d show ?thesis by (simp only:)
qed

lemma lower_simps [simp]:
  "lower [] = []" "lower (c # cs) = lower_char c # lower cs"
  by (simp_all add: lower_def)

lemma lower_append: "lower (a @ b) = lower a @ lower b"
  by (simp add: lower_def)

lemmas char_eval = lower_char_def char_of_eq_iff

text \<open>
  Claim C6. When the shell query returns, a status other than 0 gives a fresh result
  that carries only the error message, with size and count left at zero whatever the
  query stored; status 0 gives the two totals the query reported, no error, and no path
  (nothing is enumerated).
\<close>

theorem recycle_bin_probe_status:
  assumes "SHQueryRecycleBinW pf drive_path = Returned ret size_bytes num_items"
  shows "(ret \<noteq> 0 \<longrightarrow>
            scan_recycle_bin pf iid iname drive_path =
              (new_result iid iname)\<lparr>error := Some msg_recycle_bin_failed\<rparr>
            \<and> total_size (scan_recycle_bin pf iid iname drive_path) = 0
            \<and> file_count (scan_recycle_bin pf iid iname drive_path) = 0)
       \<and> (ret = 0 \<longrightarrow>
            scan_recycle_bin pf iid iname drive_path =
              (new_result iid iname)\<lparr>total_size := size_bytes, file_count := num_items\<rparr>
            \<and> files (scan_recycle_bin pf iid iname drive_path) = []
            \<and> error (scan_recycle_bin pf iid iname drive_path) = None)"
  using assms by (simp add: scan_recycle_bin_def new_result_def)

text \<open>A query that fails with status 1, and one that succeeds with 7 bytes in 3 items.\<close>

theorem recycle_bin_probe_status_witness:
  "SHQueryRecycleBinW ex_failing_platform None = Returned 1 7 3
   \<and> error (scan_recycle_bin ex_failing_platform ''bin'' ''Bin'' None) = Some msg_recycle_bin_failed
   \<and> total_size (scan_recycle_bin ex_failing_platform ''bin'' ''Bin'' None) = 0
   \<and> file_count (scan_recycle_bin ex_failing_platform ''bin'' ''Bin'' None) = 0
   \<and> SHQueryRecycleBinW ex_platform (Some ex_root) = Returned 0 7 3
   \<and> total_size (scan_recycle_bin ex_platform ''bin'' ''Bin'' (Some ex_root)) = 7
   \<and> file_count (scan_recycle_bin ex_platform ''bin'' ''Bin'' (Some ex_root)) = 3
   \<and> error (scan_recycle_bin ex_platform ''bin'' ''Bin'' (Some ex_root)) = None"
proof -
  have h1: "SHQueryRecycleBinW ex_failing_platform None = Returned 1 7 3"
    by (simp add: ex_failing_platform_def)
  have h2: "SHQueryRecycleBinW ex_platform (Some ex_root) = Returned 0 7 3"
    by (simp add: ex_platform_def)
  from recycle_bin_probe_status[OF h1, of "''bin''" "''Bin''"]
       recycle_bin_probe_status[OF h2, of "''bin''" "''Bin''"] h1 h2
  show ?thesis by (simp add: new_result_def)
qed

lemma get_dir_size_sum:
  "get_dir_size_for_scan listing = sum_list (sizes_below listing)"
  "dir_size_entries es = sum_list (sizes_in_entries es)"
  "dir_size_entry e = sum_list (sizes_in_entry e)"
proof (induction listing and es and e rule: tree_induct)
  case (5 name size_opt)
  show ?case by (cases size_opt) simp_all
qed simp_all

text \<open>
  Claim C2. In the developer-junk scanner, a directory entry whose lower-cased name is
  in the rule set and whose age \<open>now - mtime\<close> exceeds the threshold adds the size of the
  whole subtree to the total, adds exactly one to the count and appends its own path;
  the flag is not read and the subtree is not searched, so nothing below it is matched
  on its own. The size added is what \<open>_get_dir_size_for_scan\<close> returns: the sum of the
  sizes of all regular files below the directory that can be read.
\<close>

theorem stale_junk_dir_is_one_match:
  assumes "lower name \<in> set (rules q)"
    and "now q - mtime > threshold q"
  shows "depth_entry q path (Dir name (Some mtime) listing) depth (s, r) =
           (s, r\<lparr>total_size := total_size r + get_dir_size_for_scan listing,
                 file_count := file_count r + 1,
                 files := files r @ [join_path path name]\<rparr>)
         \<and> get_dir_size_for_scan listing = sum_list (sizes_below listing)"
  using assms by (simp add: add_match_def get_dir_size_sum(1))

text \<open>A stale \<open>Node_Modules\<close> with 12 readable bytes below it, among them those of a
  stale \<open>dist\<close> that is not counted separately.\<close>

theorem stale_junk_dir_is_one_match_witness:
  "lower ''Node_Modules'' \<in> set (rules ex_junk_search)
   \<and> now ex_junk_search - 10 > threshold ex_junk_search
   \<and> sizes_below ex_old_listing = [5, 7]
   \<and> depth_entry ex_junk_search ex_root (Dir ''Node_Modules'' (Some 10) ex_old_listing) 0
        (ex_scanner None, new_result ''dev'' ''Dev'') =
      (ex_scanner None,
       (new_result ''dev'' ''Dev'')\<lparr>total_size := 12, file_count := 1,
          files := [''C:'' @ [sep] @ ''Node_Modules'']\<rparr>)"
proof -
  have h1: "lower ''Node_Modules'' \<in> set (rules ex_junk_search)"
    by (simp add: ex_junk_search_def char_eval)
  have h2: "now ex_junk_search - 10 > threshold ex_junk_search"
    by (simp add: ex_junk_search_def)
  have sz: "sizes_below ex_old_listing = [5, 7]"
    by (simp add: ex_old_listing_def)
  have p: "join_path ex_root ''Node_Modules'' = ''C:'' @ [sep] @ ''Node_Modules''"
    by (simp add: join_path_def ex_root_def)
  from stale_junk_dir_is_one_match[OF h1 h2, of ex_root ex_old_listing 0 "ex_scanner None"
      "new_result ''dev'' ''Dev''"] h1 h2 sz p
  show ?thesis by (simp add: new_result_def add_match_def)
qed

lemma recent_junk_dir_falls_through:
  assumes "lower name \<in> set (rules q)"
    and "\<not> (now q - mtime > threshold q)"
  shows "depth_entry q path (Dir name (Some mtime) listing) depth (s, r) =
           (if lower name \<in> set (skip q) \<or> startswith name ''.'' then (s, r)
            else depth_search q (join_path path name) listing (depth + 1) (s, r))"
  using assms by simp

text \<open>
  Claim C1 fails on the code: a directory with a name from the rule set that is too
  recent to be counted is not left alone. The \<open>continue\<close> of the rule branch sits
  inside the age test, so such a directory falls through to the code for ordinary
  directories and is searched. Here a recent \<open>node_modules\<close> holds a stale \<open>dist\<close>:
  the scanner goes into the first and counts the second, so the entry does contribute.
\<close>

theorem recent_junk_dir_counterexample:
  "lower ''node_modules'' \<in> set (rules ex_junk_search)
   \<and> \<not> (now ex_junk_search - 950 > threshold ex_junk_search)
   \<and> depth_entry ex_junk_search ex_root ex_recent_tree 0 (ex_scanner None, new_result ''dev'' ''Dev'')
       = (ex_scanner None,
          (new_result ''dev'' ''Dev'')\<lparr>total_size := 5, file_count := 1,
             files := [''C:'' @ [sep] @ ''node_modules'' @ [sep] @ ''dist'']\<rparr>)
   \<and> depth_entry ex_junk_search ex_root ex_recent_tree 0 (ex_scanner None, new_result ''dev'' ''Dev'')
       \<noteq> (ex_scanner None, new_result ''dev'' ''Dev'')"
  by (simp add: ex_junk_search_def ex_recent_tree_def ex_root_def ex_scanner_def char_eval
      join_path_def sep_def skip_dirs_def startswith_def read_cancelled_def add_match_def
      new_result_def)

lemma grows_refl [simp]: "grows r r"
  by (simp add: grows_def)

lemma grows_trans: "grows r r1 \<Longrightarrow> grows r1 r2 \<Longrightarrow> grows r r2"
  by (auto simp: grows_def)

lemma grows_add_match [simp]: "grows r (add_match n p r)"
  by (simp add: grows_def add_match_def)

lemma depth_search_grows:
  "grows r (snd (depth_search q path listing depth (s, r)))"
  "grows r (snd (depth_entries q path es depth (s, r)))"
  "grows r (snd (depth_entry q path e depth (s, r)))"
proof (induction listing and es and e arbitrary: path depth s r and path depth s r and path depth s r
    rule: tree_induct)
  case 1
  show ?case by (simp split: prod.splits)
next
  case (2 es)
  show ?case using 2 by (simp split: prod.splits)
next
  case (4 e es)
  obtain c s' where rc: "read_cancelled s = (c, s')" by (cases "read_cancelled s")
  obtain s1 r1 where e1: "depth_entry q path e depth (s', r) = (s1, r1)"
    by (cases "depth_entry q path e depth (s', r)")
  from 4(1)[where s = s' and r = r and path = path and depth = depth] e1
  have g1: "grows r r1" by simp
  from 4(2)[where s = s1 and r = r1 and path = path and depth = depth]
  have g2: "grows r1 (snd (depth_entries q path es depth (s1, r1)))" .
  from grows_trans[OF g1 g2] rc e1 show ?case by simp
next
  case (6 name mtime listing)
  then show ?case by (simp add: Let_def split: option.splits)
qed simp_all

lemma scan_directory_grows:
  "grows r (snd (scan_directory d listing exts pat (s, r)))"
  "grows r (snd (scan_entries d es exts pat (s, r)))"
  "grows r (snd (scan_entry d e exts pat (s, r)))"
proof (induction listing and es and e arbitrary: d pat s r and d pat s r and d pat s r
    rule: tree_induct)
  case (4 e es)
  obtain c s' where rc: "read_cancelled s = (c, s')" by (cases "read_cancelled s")
  obtain s1 r1 where e1: "scan_entry d e exts pat (s', r) = (s1, r1)"
    by (cases "scan_entry d e exts pat (s', r)")
  from 4(1)[where s = s' and r = r and d = d and pat = pat] e1
  have g1: "grows r r1" by simp
  from 4(2)[where s = s1 and r = r1 and d = d and pat = pat]
  have g2: "grows r1 (snd (scan_entries d es exts pat (s1, r1)))" .
  from grows_trans[OF g1 g2] rc e1 show ?case by simp
next
  case (5 name size_opt)
  then show ?case by (simp add: Let_def split: option.splits)
next
  case (6 name mtime listing)
  then show ?case by (simp add: Let_def)
qed simp_all

lemma scan_targets_grows:
  "grows r (snd (scan_targets pf ps exts pat (s, r)))"
proof (induction ps arbitrary: s r)
  case (Cons p ps)
  show ?case
  proof (cases "path_exists pf p")
    case True
    obtain s1 r1 where e1: "scan_directory p (scandir pf p) exts pat (s, r) = (s1, r1)"
      by (cases "scan_directory p (scandir pf p) exts pat (s, r)")
    with scan_directory_grows(1)[of r p "scandir pf p" exts pat s] have "grows r r1" by simp
    from grows_trans[OF this Cons[where s = s1 and r = r1]] e1 True show ?thesis by simp
  next
    case False
    with Cons[where s = s and r = r] show ?thesis by simp
  qed
qed simp

lemma scan_paths_grows:
  "grows r (snd (scan_paths pf ts exts pat (s, r)))"
proof (induction ts arbitrary: s r)
  case (Cons t ts)
  obtain c s' where rc: "read_cancelled s = (c, s')" by (cases "read_cancelled s")
  obtain s1 r1 where e1: "scan_targets pf (target_paths pf (drive s') t) exts pat (s', r) = (s1, r1)"
    by (cases "scan_targets pf (target_paths pf (drive s') t) exts pat (s', r)")
  with scan_targets_grows[of r pf "target_paths pf (drive s') t" exts pat s']
  have "grows r r1" by simp
  from grows_trans[OF this Cons[where s = s1 and r = r1]] rc e1 show ?case by simp
qed simp

lemma junk_drives_grows:
  "grows r (snd (junk_drives pf q ds (s, r)))"
proof (induction ds arbitrary: s r)
  case (Cons d ds)
  show ?case
  proof (cases "path_exists pf (d @ [sep])")
    case True
    obtain s1 r1 where e1: "depth_search q (d @ [sep]) (scandir pf (d @ [sep])) 0 (s, r) = (s1, r1)"
      by (cases "depth_search q (d @ [sep]) (scandir pf (d @ [sep])) 0 (s, r)")
    with depth_search_grows(1)[of r q "d @ [sep]" "scandir pf (d @ [sep])" 0 s]
    have g1: "grows r r1" by simp
    obtain c s2 where rc: "read_cancelled s1 = (c, s2)" by (cases "read_cancelled s1")
    from grows_trans[OF g1 Cons[where s = s2 and r = r1]] g1 rc e1 True show ?thesis
      by (simp add: Let_def)
  next
    case False
    with Cons[where s = s and r = r] show ?thesis by (simp add: Let_def)
  qed
qed simp

text \<open>
  Claim C7. No scanner operation takes anything away from a result. The directory
  scan, the scan of all path templates of an item, the depth search and the scan of all
  drives for developer junk leave a result that has only grown: \<open>total_size\<close> and
  \<open>file_count\<close> are not smaller, and \<open>files\<close> has only been appended to. The
  recycle-bin probe fills a fresh result once, from zero and with no path.
\<close>

theorem scan_results_only_grow:
  "grows r (snd (scan_directory d listing exts pat (s, r)))
   \<and> grows r (snd (scan_paths pf ts exts pat (s, r)))
   \<and> grows (new_result (ci_id item) (ci_name item)) (snd (scan_item pf item s))
   \<and> grows r (snd (depth_search q path listing depth (s, r)))
   \<and> grows r (snd (junk_drives pf q ds (s, r)))
   \<and> grows (new_result iid iname) (snd (scan_developer_junk pf cfg iid iname s))
   \<and> grows (new_result iid iname) (scan_recycle_bin pf iid iname drive_path)
   \<and> files (scan_recycle_bin pf iid iname drive_path) = []"
proof -
  have a: "grows (new_result iid iname) (scan_recycle_bin pf iid iname drive_path)"
    by (simp add: grows_def scan_recycle_bin_def new_result_def Let_def split: shell_reply.splits)
  have b: "files (scan_recycle_bin pf iid iname drive_path) = []"
    by (simp add: scan_recycle_bin_def new_result_def Let_def split: shell_reply.splits)
  have c: "grows (new_result (ci_id item) (ci_name item)) (snd (scan_item pf item s))"
    by (simp add: scan_item_def scan_paths_grows)
  have d: "grows (new_result iid iname) (snd (scan_developer_junk pf cfg iid iname s))"
    by (simp add: scan_developer_junk_def Let_def junk_drives_grows)
  have e: "grows r (snd (scan_directory d listing exts pat (s, r)))"
    by (rule scan_directory_grows(1))
  have f: "grows r (snd (scan_paths pf ts exts pat (s, r)))"
    by (rule scan_paths_grows)
  have g: "grows r (snd (depth_search q path listing depth (s, r)))"
    by (rule depth_search_grows(1))
  have h: "grows r (snd (junk_drives pf q ds (s, r)))"
    by (rule junk_drives_grows)
  from a b c d e f g h show ?thesis by (simp only: simp_thms)
qed

lemma str_contains_iff: "str_contains p s \<longleftrightarrow> (\<exists>u v. s = u @ p @ v)"
proof (induction s)
  case Nil
  show ?case by auto
next
  case (Cons c cs)
  show ?case
  proof
    assume "str_contains p (c # cs)"
    then consider "prefix p (c # cs)" | "str_contains p cs" by auto
    then show "\<exists>u v. c # cs = u @ p @ v"
    proof cases
      case 1
      then obtain v where "c # cs = p @ v" by (auto simp: prefix_def)
      then have "c # cs = [] @ p @ v" by simp
      then show ?thesis by blast
    next
      case 2
      with Cons obtain u v where "cs = u @ p @ v" by blast
      then have "c # cs = (c # u) @ p @ v" by simp
      then show ?thesis by blast
    qed
  next
    assume "\<exists>u v. c # cs = u @ p @ v"
    then obtain u v where uv: "c # cs = u @ p @ v" by blast
    show "str_contains p (c # cs)"
    proof (cases u)
      case Nil
      with uv have "prefix p (c # cs)" by (simp add: prefix_def)
      then show ?thesis by simp
    next
      case (Cons a u')
      with uv have "cs = u' @ p @ v" by simp
      with Cons.IH show ?thesis by auto
    qed
  qed
qed

lemma join_path_extends: "\<exists>x. join_path d n = d @ x"
  by (simp add: join_path_def)

lemma pattern_kept:
  assumes "\<not> pattern_missing pat d"
  shows "\<not> pattern_missing pat (join_path d n)"
proof (cases pat)
  case None
  then show ?thesis by (simp add: pattern_missing_def)
next
  case (Some p)
  show ?thesis
  proof (cases "p = []")
    case True
    with Some show ?thesis by (simp add: pattern_missing_def)
  next
    case False
    with Some assms have "str_contains (lower p) (lower d)"
      by (simp add: pattern_missing_def)
    then obtain u v where "lower d = u @ lower p @ v" by (auto simp: str_contains_iff)
    moreover obtain x where "join_path d n = d @ x" using join_path_extends by blast
    ultimately have "lower (join_path d n) = u @ lower p @ (v @ lower x)"
      by (simp add: lower_append)
    then have "str_contains (lower p) (lower (join_path d n))"
      unfolding str_contains_iff by blast
    with Some show ?thesis by (simp add: pattern_missing_def)
  qed
qed

lemma pattern_missing_None [simp]: "\<not> pattern_missing None p"
  by (simp add: pattern_missing_def)

lemma shortcut_sound:
  "\<not> pattern_missing pat d \<Longrightarrow>
     scan_directory d listing exts None (s, r) = naive_directory d listing exts pat (s, r)"
  "\<not> pattern_missing pat d \<Longrightarrow>
     scan_entries d es exts None (s, r) = naive_entries d es exts pat (s, r)"
  "\<not> pattern_missing pat d \<Longrightarrow>
     scan_entry d e exts None (s, r) = naive_entry d e exts pat (s, r)"
proof (induction listing and es and e arbitrary: d s r and d s r and d s r rule: tree_induct)
  case (4 e es)
  obtain c s' where rc: "read_cancelled s = (c, s')" by (cases "read_cancelled s")
  obtain s1 r1 where e1: "scan_entry d e exts None (s', r) = (s1, r1)"
    by (cases "scan_entry d e exts None (s', r)")
  from 4(1)[OF 4(3), of s' r] e1 have n1: "naive_entry d e exts pat (s', r) = (s1, r1)" by simp
  from 4(2)[OF 4(3), of s1 r1] rc e1 n1 show ?case by simp
next
  case (5 name size_opt)
  from pattern_kept[OF 5, of name] show ?case by (simp add: Let_def)
next
  case (6 name mtime listing)
  from 6(1)[OF pattern_kept[OF 6(2), of name], of s r] show ?case by (simp add: Let_def)
qed simp_all

text \<open>
  Claim C9. Recursing with the pattern filter switched off into a directory whose path
  already contains the pattern gives the same outcome as testing the pattern on every
  file: for every tree, every filter and every starting state, \<open>_scan_directory\<close>
  returns the result (sizes, count, paths in the same order) and the scanner state of
  the scan without the shortcut.
\<close>

theorem directory_pattern_shortcut:
  "scan_directory d listing exts pat (s, r) = naive_directory d listing exts pat (s, r)
   \<and> scan_entries d es exts pat (s, r) = naive_entries d es exts pat (s, r)
   \<and> scan_entry d e exts pat (s, r) = naive_entry d e exts pat (s, r)"
proof -
  have "scan_directory d listing exts pat (s, r) = naive_directory d listing exts pat (s, r)"
    and "scan_entries d es exts pat (s, r) = naive_entries d es exts pat (s, r)"
    and "scan_entry d e exts pat (s, r) = naive_entry d e exts pat (s, r)"
  proof (induction listing and es and e arbitrary: d s r and d s r and d s r rule: tree_induct)
    case (4 e es)
    obtain c s' where rc: "read_cancelled s = (c, s')" by (cases "read_cancelled s")
    obtain s1 r1 where e1: "scan_entry d e exts pat (s', r) = (s1, r1)"
      by (cases "scan_entry d e exts pat (s', r)")
    from 4(1)[of d s' r] e1 have n1: "naive_entry d e exts pat (s', r) = (s1, r1)" by simp
    from 4(2)[of d s1 r1] rc e1 n1 show ?case by simp
  next
    case (6 name mtime listing)
    show ?case
    proof (cases "pattern_missing pat (join_path d name)")
      case True
      with 6[of "join_path d name" s r] show ?thesis by (simp add: Let_def)
    next
      case False
      with shortcut_sound(1)[OF False, of listing exts s r] show ?thesis by (simp add: Let_def)
    qed
  qed simp_all
  then show ?thesis by blast
qed

lemma char_of_eq_iff_sym: "c = char_of n \<longleftrightarrow> take_bit 8 n = of_char c"
  using char_of_eq_iff[of n c] by auto

lemmas char_eval2 = char_eval char_of_eq_iff_sym

lemma lower_char_c: "lower_char x = CHR ''c'' \<longleftrightarrow> x = CHR ''c'' \<or> x = CHR ''C''"
proof -
  let ?n = "of_char x :: nat"
  have big: "x = CHR ''C'' \<longleftrightarrow> ?n = 67"
    using of_char_eq_iff[of x "CHR ''C''", where ?'a = nat] by simp
  have small: "x = CHR ''c'' \<longleftrightarrow> ?n = 99"
    using of_char_eq_iff[of x "CHR ''c''", where ?'a = nat] by simp
  show ?thesis
  proof (cases "(65 \<le> ?n \<and> ?n \<le> 90) \<or> (192 \<le> ?n \<and> ?n \<le> 222 \<and> ?n \<noteq> 215)")
    case True
    then have lc: "lower_char x = char_of (?n + 32)" by (simp add: lower_char_def Let_def)
    from True have b: "?n + 32 < 2 ^ 8" by auto
    then have "take_bit 8 (?n + 32) = ?n + 32" by (simp only: take_bit_nat_eq_self)
    then have "lower_char x = CHR ''c'' \<longleftrightarrow> ?n + 32 = 99"
      using lc by (simp add: char_of_eq_iff)
    also have "\<dots> \<longleftrightarrow> ?n = 67" by auto
    finally have "lower_char x = CHR ''c'' \<longleftrightarrow> x = CHR ''C''" using big by simp
    moreover from True small have "x \<noteq> CHR ''c''" by auto
    ultimately show ?thesis by simp
  next
    case False
    then have "lower_char x = x" by (auto simp: lower_char_def Let_def)
    moreover from False big have "x \<noteq> CHR ''C''" by auto
    ultimately show ?thesis by simp
  qed
qed

lemma lower_char_colon: "lower_char x = CHR '':'' \<longleftrightarrow> x = CHR '':''"
proof -
  let ?n = "of_char x :: nat"
  have colon: "x = CHR '':'' \<longleftrightarrow> ?n = 58"
    using of_char_eq_iff[of x "CHR '':''", where ?'a = nat] by simp
  show ?thesis
  proof (cases "(65 \<le> ?n \<and> ?n \<le> 90) \<or> (192 \<le> ?n \<and> ?n \<le> 222 \<and> ?n \<noteq> 215)")
    case True
    then have lc: "lower_char x = char_of (?n + 32)" by (simp add: lower_char_def Let_def)
    from True have b: "?n + 32 < 2 ^ 8" by auto
    then have "take_bit 8 (?n + 32) = ?n + 32" by (simp only: take_bit_nat_eq_self)
    then have "lower_char x = CHR '':'' \<longleftrightarrow> ?n + 32 = 58"
      using lc by (simp add: char_of_eq_iff)
    with True colon show ?thesis by auto
  next
    case False
    then have "lower_char x = x" by (auto simp: lower_char_def Let_def)
    then show ?thesis by simp
  qed
qed

lemma startswith_lower_c:
  "startswith (lower t) ''c:'' \<longleftrightarrow>
     (\<exists>rest. t = CHR ''c'' # CHR '':'' # rest \<or> t = CHR ''C'' # CHR '':'' # rest)"
proof (cases t)
  case Nil
  then show ?thesis by (simp add: startswith_def)
next
  case (Cons a t')
  show ?thesis
  proof (cases t')
    case Nil
    with Cons show ?thesis by (simp add: startswith_def)
  next
    case (Cons b rest)
    have "startswith (lower t) ''c:'' \<longleftrightarrow> lower_char a = CHR ''c'' \<and> lower_char b = CHR '':''"
      using Cons \<open>t = a # t'\<close> by (auto simp: startswith_def)
    also have "\<dots> \<longleftrightarrow> (a = CHR ''c'' \<or> a = CHR ''C'') \<and> b = CHR '':''"
      by (simp only: lower_char_c lower_char_colon)
    also have "\<dots> \<longleftrightarrow>
        (\<exists>r. t = CHR ''c'' # CHR '':'' # r \<or> t = CHR ''C'' # CHR '':'' # r)"
      using Cons \<open>t = a # t'\<close> by auto
    finally show ?thesis .
  qed
qed

text \<open>
  Claim C3 as stated fails: only the drive letter C anchors a template. With the
  selector \<open>E:\<close> (or \<open>ALL\<close>) a template on drive D is passed through as it is.
\<close>

theorem target_paths_other_drive_counterexample:
  "target_paths ex_platform ''E:'' ex_other_drive_path = [ex_other_drive_path]
   \<and> target_paths ex_platform ''E:'' ex_other_drive_path \<noteq> [''E:'' @ drop 2 ex_other_drive_path]
   \<and> target_paths ex_platform ''ALL'' ex_other_drive_path = [ex_other_drive_path]
   \<and> target_paths ex_platform ''ALL'' ex_other_drive_path
       \<noteq> map (\<lambda>d. d @ drop 2 ex_other_drive_path) (get_available_drives ex_platform)"
  by (simp add: target_paths_def ex_other_drive_path_def ex_platform_def startswith_def char_eval2)

text \<open>
  Claim C3, amended. A path template is rewritten exactly when it begins with \<open>c:\<close> or
  \<open>C:\<close>: under the selector \<open>ALL\<close> it yields one path per available drive, that
  drive put in place of the first two characters, and under any other selector the one
  path with the selector in their place. Every other template, also one that begins
  with another drive letter, passes through unchanged.
\<close>

theorem target_paths_rewrites_drive_c:
  "((\<exists>rest. t = CHR ''c'' # CHR '':'' # rest \<or> t = CHR ''C'' # CHR '':'' # rest) \<longrightarrow>
      target_paths pf ''ALL'' t = map (\<lambda>d. d @ drop 2 t) (get_available_drives pf)
      \<and> (drv \<noteq> ''ALL'' \<longrightarrow> target_paths pf drv t = [drv @ drop 2 t]))
   \<and> (\<not> (\<exists>rest. t = CHR ''c'' # CHR '':'' # rest \<or> t = CHR ''C'' # CHR '':'' # rest) \<longrightarrow>
      target_paths pf drv t = [t])"
  using startswith_lower_c[of t] by (simp add: target_paths_def)

text \<open>The template for the Windows temporary directory on drive C, under the selector
  \<open>D:\<close> and under \<open>ALL\<close> with the drives \<open>C:\<close> and \<open>D:\<close>; a relative template
  stays.\<close>

theorem target_paths_rewrites_drive_c_witness:
  "(\<exists>rest. ex_temp_path = CHR ''c'' # CHR '':'' # rest \<or> ex_temp_path = CHR ''C'' # CHR '':'' # rest)
   \<and> ''D:'' \<noteq> ''ALL''
   \<and> target_paths ex_platform ''D:'' ex_temp_path = [''D:'' @ [sep] @ ''Windows'' @ [sep] @ ''Temp'']
   \<and> target_paths ex_platform ''ALL'' ex_temp_path =
       [''C:'' @ [sep] @ ''Windows'' @ [sep] @ ''Temp'', ''D:'' @ [sep] @ ''Windows'' @ [sep] @ ''Temp'']
   \<and> \<not> (\<exists>rest. ''Temp'' = CHR ''c'' # CHR '':'' # rest \<or> ''Temp'' = CHR ''C'' # CHR '':'' # rest)
   \<and> target_paths ex_platform ''D:'' ''Temp'' = [''Temp'']"
proof -
  have h1: "\<exists>rest. ex_temp_path = CHR ''c'' # CHR '':'' # rest \<or> ex_temp_path = CHR ''C'' # CHR '':'' # rest"
    by (simp add: ex_temp_path_def)
  have h2: "''D:'' \<noteq> ''ALL''" by simp
  have h3: "\<not> (\<exists>rest. ''Temp'' = CHR ''c'' # CHR '':'' # rest \<or> ''Temp'' = CHR ''C'' # CHR '':'' # rest)"
    by simp
  have d: "drop 2 ex_temp_path = [sep] @ ''Windows'' @ [sep] @ ''Temp''"
    by (simp add: ex_temp_path_def)
  have g: "get_available_drives ex_platform = [''C:'', ''D:'']" by (simp add: ex_platform_def)
  from target_paths_rewrites_drive_c[of ex_temp_path ex_platform "''D:''"] h1 h2
  have a: "target_paths ex_platform ''ALL'' ex_temp_path =
      map (\<lambda>d. d @ drop 2 ex_temp_path) (get_available_drives ex_platform)"
    and b: "target_paths ex_platform ''D:'' ex_temp_path = [''D:'' @ drop 2 ex_temp_path]"
    by blast+
  from target_paths_rewrites_drive_c[of "''Temp''" ex_platform "''D:''"] h3
  have c: "target_paths ex_platform ''D:'' ''Temp'' = [''Temp'']" by blast
  from a b c d g h1 h2 h3 show ?thesis by (simp only: list.map append.simps simp_thms)
qed

declare scale_bits.simps [simp del]

lemma str_contains_sublist: "str_contains p s = sublist p s"
  by (simp add: str_contains_iff sublist_def)

lemmas path_eval = path_suffix_def path_name_def join_path_def sep_def

text \<open>
  Claim C4 as stated fails where the allowlist is not written in lower case: the file
  \<open>A.TMP\<close> ends with the allowlist entry \<open>.TMP\<close>, and no pattern is configured, yet
  the file is not counted.
\<close>

theorem upper_case_allowlist_counterexample:
  "ci_suffix_match [''.TMP''] (join_path ex_temp_path ''A.TMP'')
   \<and> scan_entry ex_temp_path (File ''A.TMP'' (Some 10)) (Some [''.TMP'']) None
         (ex_scanner None, new_result ''tmp'' ''Temp'')
       = (ex_scanner None, new_result ''tmp'' ''Temp'')"
  by (simp add: ci_suffix_match_def ex_temp_path_def path_eval suffix_to_prefix
      ext_rejected_def char_eval2)

text \<open>
  Claim C4, amended. A regular file whose size can be read is counted if and only if
  it passes both filters. The extension filter passes when no allowlist is configured,
  when the allowlist is empty, or when the suffix of the path (as \<open>pathlib\<close> defines it),
  put in lower case, is an entry of the allowlist exactly as that entry is written. The
  pattern filter passes when no pattern is configured, when the pattern is empty, or
  when the pattern in lower case occurs in the full path in lower case. A file that is
  counted adds its size to the total and one to the count, and its path is appended; any
  other file, and a file whose size cannot be read, leaves the result as it is.
\<close>

theorem file_counted_iff_filters_pass:
  "scan_entry d (File name (Some n)) exts pat (s, r) =
     (if (case exts of
            None \<Rightarrow> True
          | Some es \<Rightarrow> es = [] \<or> lower (path_suffix (join_path d name)) \<in> set es)
         \<and> (case pat of
               None \<Rightarrow> True
             | Some p \<Rightarrow> p = [] \<or> sublist (lower p) (lower (join_path d name)))
      then (s, r\<lparr>total_size := total_size r + n, file_count := file_count r + 1,
                  files := files r @ [join_path d name]\<rparr>)
      else (s, r))
   \<and> scan_entry d (File name None) exts pat (s, r) = (s, r)"
  by (auto simp: Let_def ext_rejected_def pattern_missing_def add_match_def
      str_contains_sublist split: option.splits)

text \<open>The file \<open>FOO.TMP\<close> in the temporary directory, with the allowlist entry \<open>.tmp\<close>
  and the pattern \<open>TEMP\<close>: both filters pass and the file is counted.\<close>

theorem file_counted_iff_filters_pass_witness:
  "lower (path_suffix (join_path ex_temp_path ''FOO.TMP'')) \<in> set [''.tmp'']
   \<and> sublist (lower ''TEMP'') (lower (join_path ex_temp_path ''FOO.TMP''))
   \<and> scan_entry ex_temp_path (File ''FOO.TMP'' (Some 10)) (Some [''.tmp'']) (Some ''TEMP'')
         (ex_scanner None, new_result ''tmp'' ''Temp'')
       = (ex_scanner None,
          (new_result ''tmp'' ''Temp'')\<lparr>total_size := 10, file_count := 1,
             files := [ex_temp_path @ [sep] @ ''FOO.TMP'']\<rparr>)"
proof -
  have h1: "lower (path_suffix (join_path ex_temp_path ''FOO.TMP'')) \<in> set [''.tmp'']"
    by (simp add: ex_temp_path_def path_eval char_eval2)
  have h2: "sublist (lower ''TEMP'') (lower (join_path ex_temp_path ''FOO.TMP''))"
    unfolding str_contains_sublist[symmetric]
    by (simp add: ex_temp_path_def path_eval char_eval2)
  have p: "join_path ex_temp_path ''FOO.TMP'' = ex_temp_path @ [sep] @ ''FOO.TMP''"
    by (simp add: ex_temp_path_def path_eval)
  have z: "total_size (new_result ''tmp'' ''Temp'') = 0 \<and> file_count (new_result ''tmp'' ''Temp'') = 0
      \<and> files (new_result ''tmp'' ''Temp'') = []"
    by (simp add: new_result_def)
  from file_counted_iff_filters_pass[of ex_temp_path "''FOO.TMP''" 10 "Some [''.tmp'']"
      "Some ''TEMP''" "ex_scanner None" "new_result ''tmp'' ''Temp''"] h1 h2
  have "scan_entry ex_temp_path (File ''FOO.TMP'' (Some 10)) (Some [''.tmp'']) (Some ''TEMP'')
         (ex_scanner None, new_result ''tmp'' ''Temp'')
       = (ex_scanner None,
          (new_result ''tmp'' ''Temp'')\<lparr>total_size := total_size (new_result ''tmp'' ''Temp'') + 10,
             file_count := file_count (new_result ''tmp'' ''Temp'') + 1,
             files := files (new_result ''tmp'' ''Temp'') @ [join_path ex_temp_path ''FOO.TMP'']\<rparr>)"
    by simp
  with h1 h2 p z show ?thesis by simp
qed

lemma progress_callback_notify [simp]: "progress_callback (notify l p s) = progress_callback s"
  by (simp add: notify_def)

lemma scan_loop_emitted_idle:
  "idle s \<Longrightarrow> progress_callback s \<Longrightarrow>
     progress_callback (scan_loop pf cfg n i items s) \<and>
     emitted (scan_loop pf cfg n i items s) =
       emitted s @ map (\<lambda>(k, item). (ci_name item, progress_percent k n)) (enumerate i items)"
proof (induction items arbitrary: s i)
  case (Cons item items)
  let ?s1 = "notify (ci_name item) (progress_percent i n) s"
  have i1: "idle ?s1" using Cons.prems by simp
  obtain s2 r2 where d: "dispatch pf cfg item ?s1 = (s2, r2)"
    by (cases "dispatch pf cfg item ?s1")
  with dispatch_idle[OF i1, of pf cfg item] have s2: "s2 = ?s1" by simp
  let ?s3 = "?s1\<lparr>results := (results ?s1)(ci_id item \<mapsto> r2)\<rparr>"
  have i3: "idle ?s3" using i1 by simp
  have c3: "progress_callback ?s3" using Cons.prems by simp
  have e3: "emitted ?s3 = emitted s @ [(ci_name item, progress_percent i n)]"
    using Cons.prems by (simp add: notify_def)
  from Cons.IH[OF i3 c3, of "Suc i"] Cons.prems d s2 e3 show ?case by simp
qed simp

lemma scale_bits_29_50: "scale_bits 29 225179981368524800 = 53"
  by (simp add: scale_bits.simps)

lemma to_double_29_50: "to_double 29 50 = (5224175567749775, 9007199254740992)"
  by (simp add: to_double_def scale_bits_29_50 round_half_even_def Let_def)

lemma scale_bits_times_100:
  "scale_bits 522417556774977500 40564819207303340847894502572032 = 47"
  by (simp add: scale_bits.simps)

lemma to_double_times_100:
  "to_double 522417556774977500 9007199254740992 = (8162774324609023, 140737488355328)"
  by (simp add: to_double_def scale_bits_times_100 round_half_even_def Let_def)

lemma progress_percent_29_50: "progress_percent 29 50 = 57"
  by (simp add: progress_percent_def to_double_29_50 to_double_times_100)

text \<open>
  Claim C8 at 50 items: the notification for the item at index 29 carries the
  percentage 57, where \<open>floor(100 * 29 / 50)\<close> is 58. The quotient \<open>29 / 50\<close> is
  rounded to a double just below 0.58, and its product with 100 to one just below 58.
\<close>

theorem progress_percent_rounds_down_at_29_of_50:
  "emitted (scan_all ex_platform ex_fifty_config (ex_scanner None)) ! 29 = (''rule'', 57)
   \<and> (100 * 29) div 50 = (58 :: nat)"
proof -
  let ?s0 = "(ex_scanner None)\<lparr>cancelled := False, results := Map.empty\<rparr>"
  let ?items = "replicate 50 (ex_item ''rule'' None)"
  have i0: "idle ?s0" by (simp add: idle_def ex_scanner_def)
  have c0: "progress_callback ?s0" by (simp add: ex_scanner_def)
  have e0: "emitted ?s0 = []" by (simp add: ex_scanner_def)
  from scan_loop_emitted_idle[OF i0 c0, of ex_platform ex_fifty_config 50 0 ?items] e0
  have cb: "progress_callback (scan_loop ex_platform ex_fifty_config 50 0 ?items ?s0)"
    and em: "emitted (scan_loop ex_platform ex_fifty_config 50 0 ?items ?s0) =
      map (\<lambda>(k, item). (ci_name item, progress_percent k 50)) (enumerate 0 ?items)"
    by simp_all
  have "emitted (scan_all ex_platform ex_fifty_config (ex_scanner None)) =
      map (\<lambda>(k, item). (ci_name item, progress_percent k 50)) (enumerate 0 ?items)
        @ [(msg_scan_complete, 100)]"
    using cb em by (simp add: scan_all_def ex_fifty_config_def Let_def notify_def)
  then have "emitted (scan_all ex_platform ex_fifty_config (ex_scanner None)) ! 29 =
      (ci_name (ex_item ''rule'' None), progress_percent 29 50)"
    by (simp add: nth_append nth_enumerate_eq)
  then show ?thesis by (simp add: progress_percent_29_50 ex_item_def)
qed

end
